theory Spec2Isabelle
  imports Main "HOL-Library.Sublist"
begin

section \<open>Data model of \<open>src/App.tsx\<close>\<close>

text \<open>
  A browser \<open>File\<close>: its name, its declared media type and its bytes.
\<close>

record File =
  name :: string
  type :: string
  content :: "nat list"

datatype Status = Upscaling | Ready | Error

text \<open>
  An object URL is identified by the number of the \<open>URL.createObjectURL\<close> call that
  returned it: the browser hands out a new URL at every call.
\<close>

type_synonym url = nat

text \<open>
  \<open>interface ManagedImage\<close>. The field \<open>id\<close> is called \<open>img_id\<close> here, since
  \<open>id\<close> is the identity function of HOL; the optional \<open>errorMessage\<close> is an option.
\<close>

record ManagedImage =
  img_id :: string
  "file" :: File
  previewUrl :: url
  status :: Status
  errorMessage :: "string option"

text \<open>
  The state the component works on. The first four fields are the \<open>useState\<close> cells of
  \<open>App\<close>. The others are the part of the environment the handlers act on:
  \<^item> \<open>created\<close>: how many times \<open>URL.createObjectURL\<close> has been called (call number \<open>k\<close>
    returned the URL \<open>k\<close>);
  \<^item> \<open>revoked\<close>: the log of the \<open>URL.revokeObjectURL\<close> calls, oldest first;
  \<^item> \<open>inflight\<close>: the ids of the entries whose \<open>upscaleImage\<close> promise has not settled;
  \<^item> \<open>pdfCalls\<close>: the log of the arguments \<open>generatePdfFromImages\<close> was called with.
\<close>

record App =
  managedImages :: "ManagedImage list"
  isGenerating :: bool
  error :: "string option"
  successMessage :: "string option"
  created :: nat
  revoked :: "url list"
  inflight :: "string list"
  pdfCalls :: "File list list"

text \<open>The values \<open>useState\<close> starts from, in a browser that has created no object URL.\<close>

definition initialManagedImages :: "ManagedImage list" where
  "initialManagedImages = []"

definition initialApp :: App where
  "initialApp = \<lparr>managedImages = initialManagedImages, isGenerating = False, error = None,
     successMessage = None, created = 0, revoked = [], inflight = [], pdfCalls = []\<rparr>"

section \<open>String helpers of the handlers\<close>

text \<open>\<open>s.startsWith('image/')\<close>.\<close>

definition isImageType :: "string \<Rightarrow> bool" where
  "isImageType t = prefix ''image/'' t"

text \<open>A number interpolated in a template literal: its decimal digits.\<close>

definition digitChar :: "nat \<Rightarrow> char" where
  "digitChar d = char_of (48 + d)"

function showNat :: "nat \<Rightarrow> string" where
  "showNat n = (if n < 10 then [digitChar n] else showNat (n div 10) @ [digitChar (n mod 10)])"
  by pat_completeness auto
termination
  by (relation "measure (\<lambda>n. n)") auto

declare showNat.simps [simp del]

text \<open>\<open>s.split(c)\<close>: the pieces of \<open>s\<close> between the occurrences of \<open>c\<close>; never empty.\<close>

fun splitOn :: "char \<Rightarrow> string \<Rightarrow> string list" where
  "splitOn c [] = [[]]"
| "splitOn c (x # xs) =
     (if x = c then [] # splitOn c xs
      else (case splitOn c xs of
              [] \<Rightarrow> [[x]]
            | p # ps \<Rightarrow> (x # p) # ps))"

text \<open>\<open>blob.type.split('/')[1] || 'png'\<close>: a missing or empty second piece gives \<open>png\<close>.\<close>

definition extensionOf :: "string \<Rightarrow> string" where
  "extensionOf t =
     (case splitOn (CHR ''/'') t of
        _ # e # _ \<Rightarrow> (if e = [] then ''png'' else e)
      | _ \<Rightarrow> ''png'')"

section \<open>Admission\<close>

text \<open>
  The two \<open>map\<close> calls that build \<open>newEntries\<close> (lines 50-55 and 99-104) differ in the
  status only. For the file number \<open>k\<close> of the batch the callback draws \<open>Math.random()\<close>,
  whose rendering in the template literal is \<open>rnd k\<close>, and then calls
  \<open>URL.createObjectURL\<close>, which returns the next URL \<open>c\<close>.
\<close>

fun newEntriesFrom :: "Status \<Rightarrow> (nat \<Rightarrow> string) \<Rightarrow> nat \<Rightarrow> url \<Rightarrow> File list \<Rightarrow> ManagedImage list" where
  "newEntriesFrom st rnd k c [] = []"
| "newEntriesFrom st rnd k c (f # fs) =
     \<lparr>img_id = name f @ ''-'' @ rnd k, file = f, previewUrl = c, status = st,
      errorMessage = None\<rparr> # newEntriesFrom st rnd (Suc k) (Suc c) fs"

text \<open>
  \<open>handleFileChange\<close> (lines 90-112). \<open>files\<close> is \<open>event.target.files\<close>, which may be null.
\<close>

definition handleFileChange :: "File list option \<Rightarrow> (nat \<Rightarrow> string) \<Rightarrow> App \<Rightarrow> App" where
  "handleFileChange files rnd s =
     (let s1 = s\<lparr>error := None, successMessage := None\<rparr> in
      case files of
        None \<Rightarrow> s1
      | Some fs \<Rightarrow>
          let validImages = filter (\<lambda>f. isImageType (type f)) fs;
              s2 = (if length validImages \<noteq> length fs
                    then s1\<lparr>error := Some ''Some selected files were not valid images and have been ignored.''\<rparr>
                    else s1);
              newEntries = newEntriesFrom Ready rnd 0 (created s2) validImages;
              s3 = s2\<lparr>created := created s2 + length validImages,
                      managedImages := managedImages s2 @ newEntries\<rparr>
          in if length validImages > 0
             then s3\<lparr>successMessage := Some (showNat (length validImages) @ '' image(s) selected.'')\<rparr>
             else s3)"

text \<open>
  A clipboard item (\<open>DataTransferItem\<close>): its declared type and what \<open>getAsFile()\<close>
  returns, null for an item that is not a file.
\<close>

record DataTransferItem =
  itemType :: string
  getAsFile :: "File option"

text \<open>
  The loop of lines 33-44, at position \<open>i\<close>; \<open>now i\<close> is what \<open>Date.now()\<close> returns in
  iteration \<open>i\<close>.
\<close>

fun pastedImagesFrom :: "(nat \<Rightarrow> nat) \<Rightarrow> nat \<Rightarrow> DataTransferItem list \<Rightarrow> File list" where
  "pastedImagesFrom now i [] = []"
| "pastedImagesFrom now i (it # its) =
     (if isImageType (itemType it)
      then (case getAsFile it of
              None \<Rightarrow> pastedImagesFrom now (Suc i) its
            | Some blob \<Rightarrow>
                \<lparr>name = ''pasted-image-'' @ showNat (now i) @ ''-'' @ showNat i @ ''.''
                          @ extensionOf (type blob),
                 type = type blob, content = content blob\<rparr>
                # pastedImagesFrom now (Suc i) its)
      else pastedImagesFrom now (Suc i) its)"

text \<open>
  \<open>handlePaste\<close> (lines 29-81) up to the point where the promises are created:
  \<open>items\<close> is \<open>event.clipboardData?.items\<close>. Every new entry is handed to
  \<open>upscaleImage\<close>, so its id joins \<open>inflight\<close>.
\<close>

definition handlePaste :: "DataTransferItem list option \<Rightarrow> (nat \<Rightarrow> nat) \<Rightarrow> (nat \<Rightarrow> string) \<Rightarrow> App \<Rightarrow> App" where
  "handlePaste items now rnd s =
     (case items of
        None \<Rightarrow> s
      | Some its \<Rightarrow>
          let pastedImages = pastedImagesFrom now 0 its in
          if length pastedImages > 0
          then
            let s1 = s\<lparr>successMessage := Some (showNat (length pastedImages) @ '' image(s) pasted. Upscaling...''),
                      error := None\<rparr>;
                newEntries = newEntriesFrom Upscaling rnd 0 (created s1) pastedImages
            in s1\<lparr>created := created s1 + length pastedImages,
                  managedImages := managedImages s1 @ newEntries,
                  inflight := inflight s1 @ map img_id newEntries\<rparr>
          else s)"

section \<open>Settlement of an enhancement transform\<close>

text \<open>
  The \<open>.then\<close> handler of lines 61-71 for the entry with id \<open>entryId\<close>: it creates the new
  preview URL first, then maps over the collection; the callback revokes the old URL of
  every item it replaces, in collection order.
\<close>

definition upscaleThen :: "string \<Rightarrow> File \<Rightarrow> App \<Rightarrow> App" where
  "upscaleThen entryId upscaledFile s =
     (let newPreviewUrl = created s;
          prev = managedImages s
      in s\<lparr>created := Suc (created s),
            revoked := revoked s @ map previewUrl (filter (\<lambda>img. img_id img = entryId) prev),
            managedImages :=
              map (\<lambda>img. if img_id img = entryId
                         then img\<lparr>file := upscaledFile, previewUrl := newPreviewUrl, status := Ready\<rparr>
                         else img) prev,
            successMessage := Some ''Image upscaling complete!''\<rparr>)"

text \<open>The \<open>.catch\<close> handler of lines 72-78.\<close>

definition upscaleCatch :: "string \<Rightarrow> App \<Rightarrow> App" where
  "upscaleCatch entryId s =
     s\<lparr>managedImages :=
         map (\<lambda>img. if img_id img = entryId
                    then img\<lparr>status := Error, errorMessage := Some ''Upscaling failed.''\<rparr>
                    else img) (managedImages s),
       error := Some ''Some images could not be upscaled.''\<rparr>"

section \<open>Assembly\<close>

text \<open>
  \<open>handleGeneratePdf\<close> (lines 114-135) up to its \<open>await\<close>: either the early return, or the
  call of \<open>generatePdfFromImages\<close>, logged in \<open>pdfCalls\<close>.
\<close>

definition handleGeneratePdf :: "App \<Rightarrow> App" where
  "handleGeneratePdf s =
     (let imagesToProcess = map file (filter (\<lambda>img. status img = Ready) (managedImages s)) in
      if length imagesToProcess = 0
      then s\<lparr>error := Some ''Please add at least one ready image. If images are upscaling, please wait.''\<rparr>
      else s\<lparr>isGenerating := True, error := None, successMessage := None,
             pdfCalls := pdfCalls s @ [imagesToProcess]\<rparr>)"

text \<open>
  The rest of \<open>handleGeneratePdf\<close>, once the promise has settled: \<open>None\<close> when it
  resolved, \<open>Some m\<close> when it was rejected with an error whose message is \<open>m\<close>.
\<close>

definition generatePdfSettled :: "string option \<Rightarrow> App \<Rightarrow> App" where
  "generatePdfSettled outcome s =
     (case outcome of
        None \<Rightarrow> s\<lparr>successMessage := Some ''PDF generated successfully!'', isGenerating := False\<rparr>
      | Some m \<Rightarrow> s\<lparr>error := Some (''Failed to generate PDF: '' @ m), isGenerating := False\<rparr>)"

text \<open>
  The Generate button (lines 250-252): rendered only when the collection is not empty
  (line 210), and disabled while an assembly runs or an item is upscaling. A click on a
  button that is absent or disabled does not reach \<open>handleGeneratePdf\<close>.
\<close>

definition generateDisabled :: "App \<Rightarrow> bool" where
  "generateDisabled s = (isGenerating s \<or> list_ex (\<lambda>img. status img = Upscaling) (managedImages s))"

definition clickGeneratePdf :: "App \<Rightarrow> App" where
  "clickGeneratePdf s =
     (if length (managedImages s) > 0 \<and> \<not> generateDisabled s then handleGeneratePdf s else s)"

section \<open>Removal, clearing and teardown\<close>

text \<open>\<open>handleClearImages\<close> (lines 137-145); the file input's value is not modelled.\<close>

definition handleClearImages :: "App \<Rightarrow> App" where
  "handleClearImages s =
     s\<lparr>revoked := revoked s @ map previewUrl (managedImages s),
       managedImages := [],
       error := None,
       successMessage := None\<rparr>"

text \<open>\<open>handleRemoveImage\<close> (lines 147-155): \<open>find\<close> gives the first match, \<open>filter\<close> drops all.\<close>

definition handleRemoveImage :: "string \<Rightarrow> App \<Rightarrow> App" where
  "handleRemoveImage idToRemove s =
     (let prev = managedImages s;
          s1 = (case find (\<lambda>img. img_id img = idToRemove) prev of
                  None \<Rightarrow> s
                | Some imageToRemove \<Rightarrow> s\<lparr>revoked := revoked s @ [previewUrl imageToRemove]\<rparr>)
      in s1\<lparr>managedImages := filter (\<lambda>img. img_id img \<noteq> idToRemove) prev\<rparr>)"

text \<open>
  The cleanup of the first effect (lines 22-26). The effect has the dependency list
  \<open>[]\<close>, so it runs once, after the first render, and the \<open>managedImages\<close> its cleanup
  reads is the value of that render: the initial one.
\<close>

definition unmount :: "App \<Rightarrow> App" where
  "unmount s = s\<lparr>revoked := revoked s @ map previewUrl initialManagedImages\<rparr>"

section \<open>The preview handles that are live\<close>

text \<open>The URLs created and never revoked.\<close>

definition liveHandles :: "App \<Rightarrow> url list" where
  "liveHandles s = filter (\<lambda>u. u \<notin> set (revoked s)) [0..<created s]"

text \<open>How many times a URL has been revoked.\<close>

definition reclaims :: "App \<Rightarrow> url \<Rightarrow> nat" where
  "reclaims s u = count_list (revoked s) u"

section \<open>Sequences of events\<close>

text \<open>
  What can happen to the mounted component: the two ingest events, the settlement of an
  \<open>upscaleImage\<close> promise, the three buttons, and the settlement of the assembly promise.
  The arguments are what the environment supplies: the files or clipboard items, the clock
  and the draws of \<open>Math.random()\<close>, the upscaled file, the message of the assembly error.
\<close>

datatype Event =
    FileChange "File list option" "nat \<Rightarrow> string"
  | Paste "DataTransferItem list option" "nat \<Rightarrow> nat" "nat \<Rightarrow> string"
  | UpscaleResolved string File
  | UpscaleRejected string
  | RemoveImage string
  | ClearImages
  | ClickGeneratePdf
  | PdfSettled "string option"

text \<open>
  A promise settles once: a settlement is possible for an entry that is in flight only, and
  takes it out of \<open>inflight\<close>. The assembly promise exists while \<open>isGenerating\<close> holds.
\<close>

fun step :: "Event \<Rightarrow> App \<Rightarrow> App" where
  "step (FileChange files rnd) s = handleFileChange files rnd s"
| "step (Paste items now rnd) s = handlePaste items now rnd s"
| "step (UpscaleResolved entryId upscaledFile) s =
     (if entryId \<in> set (inflight s)
      then upscaleThen entryId upscaledFile (s\<lparr>inflight := remove1 entryId (inflight s)\<rparr>)
      else s)"
| "step (UpscaleRejected entryId) s =
     (if entryId \<in> set (inflight s)
      then upscaleCatch entryId (s\<lparr>inflight := remove1 entryId (inflight s)\<rparr>)
      else s)"
| "step (RemoveImage idToRemove) s = handleRemoveImage idToRemove s"
| "step ClearImages s = handleClearImages s"
| "step ClickGeneratePdf s = clickGeneratePdf s"
| "step (PdfSettled outcome) s = (if isGenerating s then generatePdfSettled outcome s else s)"

fun run :: "Event list \<Rightarrow> App \<Rightarrow> App" where
  "run [] s = s"
| "run (e # es) s = run es (step e s)"

text \<open>The ids an ingest event generates, in order.\<close>

fun newIds :: "Event \<Rightarrow> App \<Rightarrow> string list" where
  "newIds (FileChange (Some fs) rnd) s =
     map img_id (newEntriesFrom Ready rnd 0 (created s) (filter (\<lambda>f. isImageType (type f)) fs))"
| "newIds (Paste (Some its) now rnd) s =
     map img_id (newEntriesFrom Upscaling rnd 0 (created s) (pastedImagesFrom now 0 its))"
| "newIds e s = []"

text \<open>
  The draws of an event do not collide: the ids it generates differ from each other and
  from the ids in the collection.
\<close>

definition collisionFree :: "Event \<Rightarrow> App \<Rightarrow> bool" where
  "collisionFree e s =
     (distinct (newIds e s) \<and> list_all (\<lambda>i. i \<notin> img_id ` set (managedImages s)) (newIds e s))"

fun collisionFreeRun :: "Event list \<Rightarrow> App \<Rightarrow> bool" where
  "collisionFreeRun [] s = True"
| "collisionFreeRun (e # es) s = (collisionFree e s \<and> collisionFreeRun es (step e s))"

text \<open>Nor do they collide with the id of an entry whose transform is still in flight.\<close>

definition staleFree :: "Event \<Rightarrow> App \<Rightarrow> bool" where
  "staleFree e s = list_all (\<lambda>i. i \<notin> set (inflight s)) (newIds e s)"

fun staleFreeRun :: "Event list \<Rightarrow> App \<Rightarrow> bool" where
  "staleFreeRun [] s = True"
| "staleFreeRun (e # es) s = (staleFree e s \<and> staleFreeRun es (step e s))"

text \<open>The events of admission, removal and clearing.\<close>

fun admitRemoveClear :: "Event \<Rightarrow> bool" where
  "admitRemoveClear (FileChange files rnd) = True"
| "admitRemoveClear (Paste items now rnd) = True"
| "admitRemoveClear (RemoveImage idToRemove) = True"
| "admitRemoveClear ClearImages = True"
| "admitRemoveClear e = False"

text \<open>The status of the first item with a given id, if there is one.\<close>

definition statusOf :: "string \<Rightarrow> App \<Rightarrow> Status option" where
  "statusOf i s = map_option status (find (\<lambda>img. img_id img = i) (managedImages s))"

text \<open>The id stays in the collection after every event of the sequence.\<close>

fun aliveDuring :: "string \<Rightarrow> Event list \<Rightarrow> App \<Rightarrow> bool" where
  "aliveDuring i [] s = True"
| "aliveDuring i (e # es) s = (statusOf i (step e s) \<noteq> None \<and> aliveDuring i es (step e s))"

text \<open>
  The sequence passed to the assembly capability, in the words of the specification:
  the content of every item that is \<open>Ready\<close>, in collection order; an item that is
  \<open>Upscaling\<close> or \<open>Error\<close> contributes nothing.
\<close>

fun readyContents_spec :: "ManagedImage list \<Rightarrow> File list" where
  "readyContents_spec [] = []"
| "readyContents_spec (img # imgs) =
     (case status img of
        Ready \<Rightarrow> file img # readyContents_spec imgs
      | Upscaling \<Rightarrow> readyContents_spec imgs
      | Error \<Rightarrow> readyContents_spec imgs)"

text \<open>A clipboard item the paste loop keeps: an image type, and a file behind it.\<close>

definition usableItem :: "DataTransferItem \<Rightarrow> bool" where
  "usableItem it = (isImageType (itemType it) \<and> getAsFile it \<noteq> None)"

text \<open>Where an item comes from: the event that admitted it.\<close>

fun fileSourced :: "Event \<Rightarrow> bool" where
  "fileSourced (FileChange files rnd) = True"
| "fileSourced e = False"

fun pasteSourced :: "Event \<Rightarrow> bool" where
  "pasteSourced (Paste items now rnd) = True"
| "pasteSourced e = False"

section \<open>Invariants\<close>

text \<open>
  The ledger of preview handles: the ids and the URLs of the collection are pairwise
  distinct, no URL was revoked twice, and every URL created so far is either held by an
  item or revoked, never both.
\<close>

definition ledgerInv :: "App \<Rightarrow> bool" where
  "ledgerInv s =
     (distinct (map img_id (managedImages s)) \<and>
      distinct (map previewUrl (managedImages s)) \<and>
      distinct (revoked s) \<and>
      set (map previewUrl (managedImages s)) \<union> set (revoked s) = {..<created s} \<and>
      set (map previewUrl (managedImages s)) \<inter> set (revoked s) = {})"

text \<open>
  The life cycle of the items: ids are pairwise distinct, no id is in flight twice, and
  an item whose transform is still in flight is \<open>Upscaling\<close>.
\<close>

definition lifecycleInv :: "App \<Rightarrow> bool" where
  "lifecycleInv s =
     (distinct (map img_id (managedImages s)) \<and> distinct (inflight s) \<and>
      list_all (\<lambda>img. img_id img \<in> set (inflight s) \<longrightarrow> status img = Upscaling) (managedImages s))"

section \<open>Concrete inputs\<close>

definition aPng :: File where
  "aPng = \<lparr>name = ''a.png'', type = ''image/png'', content = [1, 2, 3]\<rparr>"

definition notesTxt :: File where
  "notesTxt = \<lparr>name = ''notes.txt'', type = ''text/plain'', content = [7]\<rparr>"

definition upscaledPng :: File where
  "upscaledPng = \<lparr>name = ''upscaled.png'', type = ''image/png'', content = [4, 5, 6, 7]\<rparr>"

text \<open>A file that carries the name \<open>handlePaste\<close> gives its first item at time 5.\<close>

definition pastedNamePng :: File where
  "pastedNamePng = \<lparr>name = ''pasted-image-5-0.png'', type = ''image/png'', content = [9]\<rparr>"

text \<open>Two random sources, each returning one value at every draw, and a clock.\<close>

definition halfDraw :: "nat \<Rightarrow> string" where
  "halfDraw k = ''0.5''"

definition quarterDraw :: "nat \<Rightarrow> string" where
  "quarterDraw k = ''0.25''"

definition clockAt5 :: "nat \<Rightarrow> nat" where
  "clockAt5 i = 5"

definition pngItem :: DataTransferItem where
  "pngItem = \<lparr>itemType = ''image/png'', getAsFile = Some aPng\<rparr>"

definition textItem :: DataTransferItem where
  "textItem = \<lparr>itemType = ''text/plain'', getAsFile = None\<rparr>"

text \<open>The id of the entry that pasting \<open>pngItem\<close> at time 5 creates under \<open>halfDraw\<close>.\<close>

definition pastedId :: string where
  "pastedId = ''pasted-image-5-0.png-0.5''"

text \<open>One selected file that is ready, and one pasted image that is still upscaling.\<close>

definition mixedApp :: App where
  "mixedApp = run [FileChange (Some [aPng]) halfDraw, Paste (Some [pngItem]) clockAt5 halfDraw] initialApp"

text \<open>One pasted image whose transform has failed.\<close>

definition failedApp :: App where
  "failedApp = run [Paste (Some [pngItem]) clockAt5 halfDraw, UpscaleRejected pastedId] initialApp"

text \<open>One pasted image, removed while its transform is in flight.\<close>

definition staleApp :: App where
  "staleApp = run [Paste (Some [pngItem]) clockAt5 halfDraw, RemoveImage pastedId] initialApp"

text \<open>
  A selected file and a pasted image that get the same id, and the failure of the pasted
  image's transform.
\<close>

definition collidingEvents :: "Event list" where
  "collidingEvents = [FileChange (Some [pastedNamePng]) halfDraw,
     Paste (Some [pngItem]) clockAt5 halfDraw, UpscaleRejected pastedId]"

text \<open>
  The same image pasted twice at the same clock value with the same draw, so that both
  entries get one id; the first transform then resolves and the second fails.
\<close>

definition collidingPastes :: "Event list" where
  "collidingPastes = [Paste (Some [pngItem]) clockAt5 halfDraw, Paste (Some [pngItem]) clockAt5 halfDraw,
     UpscaleResolved pastedId upscaledPng, UpscaleRejected pastedId]"

text \<open>A resolved transform, a file selection and an assembly, to follow the paste of \<open>pngItem\<close>.\<close>

definition lifecycleEvents :: "Event list" where
  "lifecycleEvents = [UpscaleResolved pastedId upscaledPng, FileChange (Some [aPng]) halfDraw,
      ClickGeneratePdf, PdfSettled None]"

section \<open>What the handlers do to each part of the state\<close>

lemma newEntriesFrom_file: "map file (newEntriesFrom st rnd k c fs) = fs"
  by (induction fs arbitrary: k c) simp_all

lemma newEntriesFrom_previewUrl:
  "map previewUrl (newEntriesFrom st rnd k c fs) = [c..<c + length fs]"
  by (induction fs arbitrary: k c) (simp_all add: upt_rec)

lemma newEntriesFrom_status: "img \<in> set (newEntriesFrom st rnd k c fs) \<Longrightarrow> status img = st"
  by (induction fs arbitrary: k c) auto

lemma handleFileChange_managedImages:
  "managedImages (handleFileChange files rnd s) =
     managedImages s @ (case files of None \<Rightarrow> []
        | Some fs \<Rightarrow> newEntriesFrom Ready rnd 0 (created s) (filter (\<lambda>f. isImageType (type f)) fs))"
  by (simp add: handleFileChange_def Let_def split: option.splits)

lemma handleFileChange_created:
  "created (handleFileChange files rnd s) =
     created s + (case files of None \<Rightarrow> 0 | Some fs \<Rightarrow> length (filter (\<lambda>f. isImageType (type f)) fs))"
  by (simp add: handleFileChange_def Let_def split: option.splits)

lemma handleFileChange_revoked: "revoked (handleFileChange files rnd s) = revoked s"
  by (simp add: handleFileChange_def Let_def split: option.splits)

lemma handleFileChange_inflight: "inflight (handleFileChange files rnd s) = inflight s"
  by (simp add: handleFileChange_def Let_def split: option.splits)

lemma handlePaste_managedImages:
  "managedImages (handlePaste items now rnd s) =
     managedImages s @ (case items of None \<Rightarrow> []
        | Some its \<Rightarrow> newEntriesFrom Upscaling rnd 0 (created s) (pastedImagesFrom now 0 its))"
  by (simp add: handlePaste_def Let_def split: option.splits)

lemma handlePaste_created:
  "created (handlePaste items now rnd s) =
     created s + (case items of None \<Rightarrow> 0 | Some its \<Rightarrow> length (pastedImagesFrom now 0 its))"
  by (simp add: handlePaste_def Let_def split: option.splits)

lemma handlePaste_revoked: "revoked (handlePaste items now rnd s) = revoked s"
  by (simp add: handlePaste_def Let_def split: option.splits)

lemma handlePaste_inflight:
  "inflight (handlePaste items now rnd s) =
     inflight s @ (case items of None \<Rightarrow> []
        | Some its \<Rightarrow> map img_id (newEntriesFrom Upscaling rnd 0 (created s) (pastedImagesFrom now 0 its)))"
  by (simp add: handlePaste_def Let_def split: option.splits)

lemma inflight_unchanged:
  "inflight (handleRemoveImage j s) = inflight s"
  "inflight (handleClearImages s) = inflight s"
  "inflight (clickGeneratePdf s) = inflight s"
  "inflight (generatePdfSettled r s) = inflight s"
  by (simp_all add: handleRemoveImage_def Let_def handleClearImages_def clickGeneratePdf_def
      handleGeneratePdf_def generatePdfSettled_def split: option.splits)

lemma map_absent_id:
  "i \<notin> img_id ` set imgs \<Longrightarrow> map (\<lambda>img. if img_id img = i then g img else img) imgs = imgs"
  by (induction imgs) auto

lemma readyContents_spec_eq:
  "map file (filter (\<lambda>img. status img = Ready) imgs) = readyContents_spec imgs"
  by (induction imgs) (simp_all split: Status.splits)

lemma length_filter_all: "(length (filter P xs) = length xs) = list_all P xs"
proof (induction xs)
  case Nil
  then show ?case by simp
next
  case (Cons x xs)
  show ?case
  proof (cases "P x")
    case True
    then show ?thesis using Cons by simp
  next
    case False
    have "length (filter P xs) \<le> length xs" by (rule length_filter_le)
    then have "length (filter P xs) \<noteq> Suc (length xs)" by arith
    then show ?thesis using False by simp
  qed
qed

lemma pastedImagesFrom_usable:
  "map (\<lambda>f. (type f, content f)) (pastedImagesFrom now i its)
     = map (\<lambda>it. (type (the (getAsFile it)), content (the (getAsFile it)))) (filter usableItem its)"
  by (induction its arbitrary: i) (auto simp: usableItem_def split: option.splits)

lemma pastedImagesFrom_empty: "(pastedImagesFrom now i its = []) = (\<not> list_ex usableItem its)"
  by (induction its arbitrary: i) (auto simp: usableItem_def split: option.splits)

section \<open>Removal of an id that is not in the collection\<close>

text \<open>
  C10. Calling \<open>handleRemoveImage\<close> with an id that no item of the collection has is a
  no-op: the collection is the one before, and no preview handle is revoked; indeed the
  whole state is unchanged.
\<close>

theorem remove_absent_noop:
  "idToRemove \<notin> img_id ` set (managedImages s) \<Longrightarrow> handleRemoveImage idToRemove s = s"
proof -
  assume a: "idToRemove \<notin> img_id ` set (managedImages s)"
  have f: "find (\<lambda>img. img_id img = idToRemove) (managedImages s) = None"
    using a by (auto simp: find_None_iff)
  have g: "filter (\<lambda>img. img_id img \<noteq> idToRemove) (managedImages s) = managedImages s"
    using a by (auto simp: filter_id_conv)
  show ?thesis by (simp add: handleRemoveImage_def f g)
qed

text \<open>With \<open>a.png\<close> selected, removing the id of a file \<open>b.png\<close> changes nothing.\<close>

theorem remove_absent_noop_witness:
  "''b.png-0.5'' \<notin> img_id ` set (managedImages (handleFileChange (Some [aPng]) halfDraw initialApp)) \<and>
   handleRemoveImage ''b.png-0.5'' (handleFileChange (Some [aPng]) halfDraw initialApp)
     = handleFileChange (Some [aPng]) halfDraw initialApp"
proof -
  have h: "''b.png-0.5'' \<notin> img_id ` set (managedImages (handleFileChange (Some [aPng]) halfDraw initialApp))"
    by code_simp
  show ?thesis using h remove_absent_noop [OF h] by simp
qed

section \<open>The sequence handed to the assembly capability\<close>

text \<open>
  C3. Whenever \<open>generatePdfFromImages\<close> is called, by \<open>handleGeneratePdf\<close> itself or
  through a click on the button, it is called once, with the files of the items that are
  \<open>Ready\<close>, in collection order; items that are \<open>Upscaling\<close> or \<open>Error\<close> contribute
  nothing.
\<close>

theorem assembly_sequence:
  "(pdfCalls (handleGeneratePdf s) \<noteq> pdfCalls s \<longrightarrow>
      pdfCalls (handleGeneratePdf s) = pdfCalls s @ [readyContents_spec (managedImages s)]) \<and>
   (pdfCalls (clickGeneratePdf s) \<noteq> pdfCalls s \<longrightarrow>
      pdfCalls (clickGeneratePdf s) = pdfCalls s @ [readyContents_spec (managedImages s)])"
  by (simp add: handleGeneratePdf_def clickGeneratePdf_def Let_def readyContents_spec_eq)

text \<open>With one ready file and one upscaling paste, the handler passes the ready file only.\<close>

theorem assembly_sequence_witness:
  "pdfCalls (handleGeneratePdf mixedApp) \<noteq> pdfCalls mixedApp \<and>
   pdfCalls (handleGeneratePdf mixedApp) = pdfCalls mixedApp @ [readyContents_spec (managedImages mixedApp)] \<and>
   readyContents_spec (managedImages mixedApp) = [aPng]"
proof -
  have a: "pdfCalls (handleGeneratePdf mixedApp) \<noteq> pdfCalls mixedApp" by code_simp
  have b: "readyContents_spec (managedImages mixedApp) = [aPng]" by code_simp
  show ?thesis using a b assembly_sequence [of mixedApp] by simp
qed

section \<open>Failure of an enhancement transform\<close>





section \<open>A transform that settles after its item was removed\<close>

text \<open>
  C5, as the code has it. When the transform of an entry settles and no item of the
  collection has the entry's id, the collection is the one before, under success and
  under failure: nothing is resurrected, no item is modified, no handle is revoked, and
  the lookup that misses raises nothing. A stale success leaves the error banner as it
  was. A stale failure still sets the aggregate banner
  \<open>Some images could not be upscaled.\<close>
\<close>

theorem stale_completion:
  assumes "entryId \<notin> img_id ` set (managedImages s)"
  shows "managedImages (upscaleThen entryId upscaledFile s) = managedImages s \<and>
         revoked (upscaleThen entryId upscaledFile s) = revoked s \<and>
         error (upscaleThen entryId upscaledFile s) = error s \<and>
         managedImages (upscaleCatch entryId s) = managedImages s \<and>
         revoked (upscaleCatch entryId s) = revoked s \<and>
         created (upscaleCatch entryId s) = created s \<and>
         error (upscaleCatch entryId s) = Some ''Some images could not be upscaled.''"
proof -
  have n: "filter (\<lambda>img. img_id img = entryId) (managedImages s) = []"
    using assms by (auto simp: filter_empty_conv)
  show ?thesis
    by (simp add: upscaleThen_def upscaleCatch_def Let_def n map_absent_id [OF assms])
qed

text \<open>
  A pasted image is removed while its transform is in flight; the transform then settles
  on the empty collection.
\<close>

theorem stale_completion_witness:
  "pastedId \<notin> img_id ` set (managedImages staleApp) \<and>
   pastedId \<in> set (inflight staleApp) \<and>
   managedImages (upscaleThen pastedId upscaledPng staleApp) = [] \<and>
   managedImages (upscaleCatch pastedId staleApp) = [] \<and>
   revoked (upscaleThen pastedId upscaledPng staleApp) = [0] \<and>
   error (upscaleThen pastedId upscaledPng staleApp) = None"
proof -
  have h: "pastedId \<notin> img_id ` set (managedImages staleApp)" by code_simp
  have f: "pastedId \<in> set (inflight staleApp)" by code_simp
  have e: "managedImages staleApp = []" "revoked staleApp = [0]" "error staleApp = None"
    by code_simp+
  show ?thesis using h f stale_completion [OF h, of upscaledPng] unfolding e by simp
qed

text \<open>
  C5 as stated fails on the failure path. Paste one image and remove it while it is
  upscaling: the collection is empty and no error is shown. When the transform then
  fails, the banner \<open>Some images could not be upscaled.\<close> appears.
\<close>

theorem stale_failure_banner_counterexample:
  "managedImages (run [Paste (Some [pngItem]) clockAt5 halfDraw, RemoveImage pastedId] initialApp) = [] \<and>
   error (run [Paste (Some [pngItem]) clockAt5 halfDraw, RemoveImage pastedId] initialApp) = None \<and>
   error (run [Paste (Some [pngItem]) clockAt5 halfDraw, RemoveImage pastedId,
               UpscaleRejected pastedId] initialApp) = Some ''Some images could not be upscaled.''"
  by code_simp

section \<open>The guard of the assembly\<close>

text \<open>
  C2, as the code has it. \<open>handleGeneratePdf\<close> rejects at once, with the guiding message
  and without calling the assembly capability, when no item is \<open>Ready\<close>; that is the
  only test it makes. While an item is \<open>Upscaling\<close> the Generate button is disabled: a
  click leaves the state as it is, so nothing is called and no message is shown. In both
  cases a click does not call the assembly capability.
\<close>

theorem generate_guard:
  "(list_all (\<lambda>img. status img \<noteq> Ready) (managedImages s) \<longrightarrow>
      handleGeneratePdf s =
        s\<lparr>error := Some ''Please add at least one ready image. If images are upscaling, please wait.''\<rparr>) \<and>
   (list_ex (\<lambda>img. status img = Upscaling) (managedImages s) \<longrightarrow> clickGeneratePdf s = s) \<and>
   (list_all (\<lambda>img. status img \<noteq> Ready) (managedImages s) \<or>
    list_ex (\<lambda>img. status img = Upscaling) (managedImages s) \<longrightarrow>
      pdfCalls (clickGeneratePdf s) = pdfCalls s)"
proof -
  have "filter (\<lambda>img. status img = Ready) (managedImages s) = []"
    if "list_all (\<lambda>img. status img \<noteq> Ready) (managedImages s)"
    using that by (simp add: filter_empty_conv list_all_iff)
  then show ?thesis
    by (auto simp: handleGeneratePdf_def clickGeneratePdf_def generateDisabled_def Let_def)
qed

text \<open>
  The handler on a collection whose only item has failed, and a click while an item is
  upscaling.
\<close>

theorem generate_guard_witness:
  "list_all (\<lambda>img. status img \<noteq> Ready) (managedImages failedApp) \<and>
   error (handleGeneratePdf failedApp)
     = Some ''Please add at least one ready image. If images are upscaling, please wait.'' \<and>
   pdfCalls (handleGeneratePdf failedApp) = pdfCalls failedApp \<and>
   list_ex (\<lambda>img. status img = Upscaling) (managedImages mixedApp) \<and>
   clickGeneratePdf mixedApp = mixedApp"
proof -
  have a: "list_all (\<lambda>img. status img \<noteq> Ready) (managedImages failedApp)" by code_simp
  have b: "list_ex (\<lambda>img. status img = Upscaling) (managedImages mixedApp)" by code_simp
  show ?thesis using a b generate_guard [of failedApp] generate_guard [of mixedApp] by simp
qed

text \<open>
  C2 as stated fails where an item is \<open>Upscaling\<close> and another is \<open>Ready\<close>: invoked
  there, \<open>handleGeneratePdf\<close> calls the assembly capability with the ready file and sets
  no message; and the click, which the disabled button swallows, shows no message either.
\<close>

theorem generate_with_upscaling_counterexample:
  "list_ex (\<lambda>img. status img = Upscaling) (managedImages mixedApp) \<and>
   pdfCalls mixedApp = [] \<and>
   pdfCalls (handleGeneratePdf mixedApp) = [[aPng]] \<and>
   error (handleGeneratePdf mixedApp) = None \<and>
   error (clickGeneratePdf mixedApp) = None"
  by code_simp

section \<open>Ingest batches\<close>

text \<open>
  C8, as the code has it. A file selection keeps the collection and appends one item for
  every file whose type starts with \<open>image/\<close>, in order; it sets the one warning of the
  batch exactly when some file was rejected. A paste keeps the collection and appends one
  item for every clipboard item that has an image type and a file behind it, in order,
  with that file's type and bytes; it never sets a warning: it clears the error when it
  admits something and leaves it as it was otherwise.
\<close>

theorem ingest_batch:
  "take (length (managedImages s)) (managedImages (handleFileChange (Some fs) rnd s)) = managedImages s \<and>
   map file (drop (length (managedImages s)) (managedImages (handleFileChange (Some fs) rnd s)))
     = filter (\<lambda>f. isImageType (type f)) fs \<and>
   error (handleFileChange (Some fs) rnd s)
     = (if list_all (\<lambda>f. isImageType (type f)) fs then None
        else Some ''Some selected files were not valid images and have been ignored.'') \<and>
   take (length (managedImages s)) (managedImages (handlePaste (Some its) now rnd s)) = managedImages s \<and>
   map (\<lambda>img. (type (file img), content (file img)))
       (drop (length (managedImages s)) (managedImages (handlePaste (Some its) now rnd s)))
     = map (\<lambda>it. (type (the (getAsFile it)), content (the (getAsFile it)))) (filter usableItem its) \<and>
   error (handlePaste (Some its) now rnd s) = (if list_ex usableItem its then None else error s)"
proof -
  have 1: "error (handleFileChange (Some fs) rnd s)
     = (if list_all (\<lambda>f. isImageType (type f)) fs then None
        else Some ''Some selected files were not valid images and have been ignored.'')"
  proof (cases "list_all (\<lambda>f. isImageType (type f)) fs")
    case True
    then have "filter (\<lambda>f. isImageType (type f)) fs = fs"
      by (simp add: filter_id_conv list_all_iff)
    then show ?thesis using True by (simp add: handleFileChange_def Let_def)
  next
    case False
    then have "length (filter (\<lambda>f. isImageType (type f)) fs) \<noteq> length fs"
      by (simp add: length_filter_all)
    then show ?thesis using False by (auto simp: handleFileChange_def Let_def)
  qed
  have "map (\<lambda>img. (type (file img), content (file img))) (newEntriesFrom st rnd 0 c xs)
        = map (\<lambda>f. (type f, content f)) xs" for st c xs
  proof -
    have "map (\<lambda>img. (type (file img), content (file img))) (newEntriesFrom st rnd 0 c xs)
        = map (\<lambda>f. (type f, content f)) (map file (newEntriesFrom st rnd 0 c xs))"
      by (simp add: o_def)
    then show ?thesis by (simp only: newEntriesFrom_file)
  qed
  then have 2: "map (\<lambda>img. (type (file img), content (file img)))
       (drop (length (managedImages s)) (managedImages (handlePaste (Some its) now rnd s)))
     = map (\<lambda>it. (type (the (getAsFile it)), content (the (getAsFile it)))) (filter usableItem its)"
    by (simp add: handlePaste_managedImages pastedImagesFrom_usable)
  have 3: "error (handlePaste (Some its) now rnd s) = (if list_ex usableItem its then None else error s)"
    using pastedImagesFrom_empty [of now 0 its] by (simp add: handlePaste_def Let_def)
  show ?thesis
    using 1 2 3 by (simp add: handleFileChange_managedImages handlePaste_managedImages newEntriesFrom_file)
qed

text \<open>
  A selection of an image and a text file: the image is admitted, the warning is set. A
  paste of a text item and an image: the image is admitted, no warning is set.
\<close>

theorem ingest_batch_witness:
  "map file (managedImages (handleFileChange (Some [aPng, notesTxt]) halfDraw initialApp)) = [aPng] \<and>
   error (handleFileChange (Some [aPng, notesTxt]) halfDraw initialApp)
     = Some ''Some selected files were not valid images and have been ignored.'' \<and>
   map (\<lambda>img. (type (file img), content (file img)))
     (managedImages (handlePaste (Some [textItem, pngItem]) clockAt5 halfDraw initialApp))
     = [(''image/png'', [1, 2, 3])] \<and>
   error (handlePaste (Some [textItem, pngItem]) clockAt5 halfDraw initialApp) = None"
proof -
  have a: "managedImages initialApp = []" "error initialApp = None"
    by (simp_all add: initialApp_def initialManagedImages_def)
  have b: "filter (\<lambda>f. isImageType (type f)) [aPng, notesTxt] = [aPng]"
    by code_simp
  have c: "list_all (\<lambda>f. isImageType (type f)) [aPng, notesTxt] = False"
    by code_simp
  have d: "filter usableItem [textItem, pngItem] = [pngItem]"
    by code_simp
  have e: "list_ex usableItem [textItem, pngItem] = True"
    by code_simp
  have f: "type (the (getAsFile pngItem)) = ''image/png''" "content (the (getAsFile pngItem)) = [1, 2, 3]"
    by code_simp+
  from ingest_batch [of initialApp "[aPng, notesTxt]" halfDraw "[textItem, pngItem]" clockAt5]
  show ?thesis unfolding a b c d e by (simp add: f)
qed

text \<open>
  C8 as stated fails on the paste path: a text item is rejected next to an image, and
  no warning surfaces.
\<close>

theorem paste_rejection_silent_counterexample:
  "\<not> isImageType (itemType textItem) \<and>
   error (handlePaste (Some [textItem, pngItem]) clockAt5 halfDraw initialApp) = None \<and>
   length (managedImages (handlePaste (Some [textItem, pngItem]) clockAt5 halfDraw initialApp)) = 1"
  by code_simp

section \<open>Reclaiming preview handles\<close>

text \<open>
  C1, on the two paths where the code misses it. First: one file is selected and the
  view is torn down; the cleanup revokes nothing, and the handle 0 of the item stays
  live. Second: one image is pasted and removed while it is upscaling, and its transform
  then succeeds; the handle 1 made for the result belongs to no item, stays live, and is
  not reclaimed by a teardown either.
\<close>

theorem teardown_and_stale_swap_leak:
  "managedImages (handleFileChange (Some [aPng]) halfDraw initialApp) \<noteq> [] \<and>
   revoked (unmount (handleFileChange (Some [aPng]) halfDraw initialApp)) = [] \<and>
   liveHandles (unmount (handleFileChange (Some [aPng]) halfDraw initialApp)) = [0] \<and>
   managedImages (run [Paste (Some [pngItem]) clockAt5 halfDraw, RemoveImage pastedId,
                       UpscaleResolved pastedId upscaledPng] initialApp) = [] \<and>
   liveHandles (run [Paste (Some [pngItem]) clockAt5 halfDraw, RemoveImage pastedId,
                     UpscaleResolved pastedId upscaledPng] initialApp) = [1] \<and>
   reclaims (unmount (run [Paste (Some [pngItem]) clockAt5 halfDraw, RemoveImage pastedId,
                     UpscaleResolved pastedId upscaledPng] initialApp)) 1 = 0"
  by code_simp

section \<open>Ids along a sequence of events\<close>

lemma ids_FileChange:
  "map img_id (managedImages (step (FileChange files rnd) s)) =
     map img_id (managedImages s) @ newIds (FileChange files rnd) s"
  by (cases files) (simp_all add: handleFileChange_managedImages)

lemma ids_Paste:
  "map img_id (managedImages (step (Paste items now rnd) s)) =
     map img_id (managedImages s) @ newIds (Paste items now rnd) s"
  by (cases items) (simp_all add: handlePaste_managedImages)

lemma ids_upscaleThen:
  "map img_id (managedImages (upscaleThen e f s)) = map img_id (managedImages s)"
  by (simp add: upscaleThen_def Let_def o_def if_distrib cong: if_cong)

lemma ids_upscaleCatch:
  "map img_id (managedImages (upscaleCatch e s)) = map img_id (managedImages s)"
  by (simp add: upscaleCatch_def o_def if_distrib cong: if_cong)

lemma ids_handleRemoveImage:
  "map img_id (managedImages (handleRemoveImage i s)) = filter (\<lambda>j. j \<noteq> i) (map img_id (managedImages s))"
  by (simp add: handleRemoveImage_def Let_def filter_map o_def split: option.splits)

lemma distinct_ids_step:
  assumes "distinct (map img_id (managedImages s))" "collisionFree e s"
  shows "distinct (map img_id (managedImages (step e s)))"
proof (cases e)
  case (FileChange files rnd)
  then show ?thesis using assms
    by (auto simp only: ids_FileChange collisionFree_def distinct_append list_all_iff set_map)
next
  case (Paste items now rnd)
  then show ?thesis using assms
    by (auto simp only: ids_Paste collisionFree_def distinct_append list_all_iff set_map)
next
  case (UpscaleResolved e f)
  then show ?thesis using assms by (simp add: ids_upscaleThen)
next
  case (UpscaleRejected e)
  then show ?thesis using assms by (simp add: ids_upscaleCatch)
next
  case (RemoveImage i)
  then show ?thesis using assms by (simp add: ids_handleRemoveImage)
next
  case ClearImages
  then show ?thesis by (simp add: handleClearImages_def)
next
  case ClickGeneratePdf
  then show ?thesis using assms by (simp add: clickGeneratePdf_def handleGeneratePdf_def Let_def)
next
  case (PdfSettled r)
  then show ?thesis using assms by (simp add: generatePdfSettled_def split: option.splits)
qed

lemma distinct_ids_run:
  "distinct (map img_id (managedImages s)) \<Longrightarrow> collisionFreeRun evs s \<Longrightarrow>
   distinct (map img_id (managedImages (run evs s)))"
  by (induction evs arbitrary: s) (simp_all add: distinct_ids_step)

lemma run_append: "run (xs @ ys) s = run ys (run xs s)"
  by (induction xs arbitrary: s) simp_all

lemma collisionFreeRun_append:
  "collisionFreeRun (xs @ ys) s = (collisionFreeRun xs s \<and> collisionFreeRun ys (run xs s))"
  by (induction xs arbitrary: s) simp_all

lemma staleFreeRun_append:
  "staleFreeRun (xs @ ys) s = (staleFreeRun xs s \<and> staleFreeRun ys (run xs s))"
  by (induction xs arbitrary: s) simp_all

lemma aliveDuring_append:
  "aliveDuring i (xs @ ys) s = (aliveDuring i xs s \<and> aliveDuring i ys (run xs s))"
  by (induction xs arbitrary: s) simp_all

lemma collisionFree_old:
  assumes "collisionFree e s" "img \<in> set (managedImages s)"
  shows "img_id img \<notin> set (newIds e s)"
proof
  assume "img_id img \<in> set (newIds e s)"
  with assms(1) have "img_id img \<notin> img_id ` set (managedImages s)"
    by (simp add: collisionFree_def list_all_iff)
  with assms(2) show False by blast
qed

section \<open>The ledger along admissions, removals and clearings\<close>

lemma ledgerInv_initial: "ledgerInv initialApp"
  by (simp add: ledgerInv_def initialApp_def initialManagedImages_def)

lemma ledgerInv_append:
  assumes inv: "ledgerInv s"
    and ids: "distinct (map img_id (managedImages s @ newEntriesFrom st rnd 0 (created s) fs))"
    and m: "managedImages s' = managedImages s @ newEntriesFrom st rnd 0 (created s) fs"
    and c: "created s' = created s + length fs"
    and r: "revoked s' = revoked s"
  shows "ledgerInv s'"
proof -
  let ?new = "[created s..<created s + length fs]"
  have u: "map previewUrl (managedImages s') = map previewUrl (managedImages s) @ ?new"
    by (simp add: m newEntriesFrom_previewUrl)
  have old: "set (map previewUrl (managedImages s)) \<subseteq> {..<created s}"
    "set (revoked s) \<subseteq> {..<created s}"
    using inv by (auto simp: ledgerInv_def)
  have d: "distinct (map previewUrl (managedImages s'))"
    unfolding u using inv old by (auto simp: ledgerInv_def)
  have cover: "set (map previewUrl (managedImages s')) \<union> set (revoked s') = {..<created s'}"
  proof -
    have a: "set (map previewUrl (managedImages s)) \<union> set (revoked s) = {..<created s}"
      using inv by (simp add: ledgerInv_def)
    have b: "{..<created s + length fs} = {..<created s} \<union> set ?new" by auto
    have "set (map previewUrl (managedImages s')) \<union> set (revoked s')
        = (set (map previewUrl (managedImages s)) \<union> set (revoked s)) \<union> set ?new"
      unfolding u r by auto
    then show ?thesis unfolding a b c .
  qed
  have disj: "set (map previewUrl (managedImages s')) \<inter> set (revoked s') = {}"
  proof -
    have "set (map previewUrl (managedImages s)) \<inter> set (revoked s) = {}"
      using inv by (simp add: ledgerInv_def)
    then show ?thesis unfolding u r using old by auto
  qed
  show ?thesis
    unfolding ledgerInv_def using d cover disj ids inv by (simp add: m r ledgerInv_def)
qed

lemma filter_other_ids:
  assumes "distinct (map img_id imgs)" "x \<in> set imgs"
  shows "set (filter (\<lambda>img. img_id img \<noteq> img_id x) imgs) = set imgs - {x}"
proof -
  have "inj_on img_id (set imgs)" using assms(1) by (simp add: distinct_map)
  then show ?thesis using assms(2) by (auto dest: inj_onD)
qed

lemma ledgerInv_remove:
  assumes inv: "ledgerInv s"
  shows "ledgerInv (handleRemoveImage i s)"
proof (cases "find (\<lambda>img. img_id img = i) (managedImages s)")
  case None
  then have "i \<notin> img_id ` set (managedImages s)" by (auto simp: find_None_iff)
  then have "filter (\<lambda>img. img_id img \<noteq> i) (managedImages s) = managedImages s"
    by (auto simp: filter_id_conv)
  then show ?thesis using inv None by (simp add: handleRemoveImage_def ledgerInv_def)
next
  case (Some x)
  then have x: "x \<in> set (managedImages s)" "img_id x = i"
    by (auto simp: find_Some_iff)
  let ?rest = "filter (\<lambda>img. img_id img \<noteq> i) (managedImages s)"
  have m: "managedImages (handleRemoveImage i s) = ?rest"
    and r: "revoked (handleRemoveImage i s) = revoked s @ [previewUrl x]"
    and c: "created (handleRemoveImage i s) = created s"
    using Some by (simp_all add: handleRemoveImage_def)
  have dids: "distinct (map img_id (managedImages s))"
    and durl: "distinct (map previewUrl (managedImages s))"
    and drev: "distinct (revoked s)"
    and cover: "set (map previewUrl (managedImages s)) \<union> set (revoked s) = {..<created s}"
    and disj: "set (map previewUrl (managedImages s)) \<inter> set (revoked s) = {}"
    using inv by (simp_all add: ledgerInv_def)
  have srest: "set ?rest = set (managedImages s) - {x}"
    using filter_other_ids [OF dids x(1)] x(2) by simp
  have inj: "inj_on previewUrl (set (managedImages s))"
    using durl by (simp add: distinct_map)
  have urest: "previewUrl ` set ?rest = previewUrl ` set (managedImages s) - {previewUrl x}"
    unfolding srest using inj x(1) by (auto dest: inj_onD)
  have 1: "distinct (map img_id ?rest)" using dids by (simp add: distinct_map_filter)
  have 2: "distinct (map previewUrl ?rest)" using durl by (simp add: distinct_map_filter)
  have 3: "distinct (revoked s @ [previewUrl x])" using drev disj x(1) by auto
  have 4: "set (map previewUrl ?rest) \<union> set (revoked s @ [previewUrl x]) = {..<created s}"
    using cover urest x(1) by auto
  have 5: "set (map previewUrl ?rest) \<inter> set (revoked s @ [previewUrl x]) = {}"
    using disj urest by auto
  show ?thesis unfolding ledgerInv_def m r c using 1 2 3 4 5 by simp
qed

lemma ledgerInv_clear:
  assumes inv: "ledgerInv s"
  shows "ledgerInv (handleClearImages s)"
  using inv by (auto simp: ledgerInv_def handleClearImages_def)

lemma ledgerInv_step:
  assumes inv: "ledgerInv s" and arc: "admitRemoveClear e" and cf: "collisionFree e s"
  shows "ledgerInv (step e s)"
proof (cases e)
  case (FileChange files rnd)
  show ?thesis
  proof (cases files)
    case None
    then show ?thesis using inv FileChange
      by (simp add: ledgerInv_def handleFileChange_def)
  next
    case (Some fs)
    have d: "distinct (map img_id (managedImages (step e s)))"
      using distinct_ids_step [OF _ cf] inv by (simp add: ledgerInv_def)
    show ?thesis
      unfolding FileChange step.simps
      by (rule ledgerInv_append [OF inv, where st = Ready and rnd = rnd
            and fs = "filter (\<lambda>f. isImageType (type f)) fs"])
         (use d FileChange Some in \<open>simp_all add: handleFileChange_managedImages
            handleFileChange_created handleFileChange_revoked\<close>)
  qed
next
  case (Paste items now rnd)
  show ?thesis
  proof (cases items)
    case None
    then show ?thesis using inv Paste by (simp add: handlePaste_def)
  next
    case (Some its)
    have d: "distinct (map img_id (managedImages (step e s)))"
      using distinct_ids_step [OF _ cf] inv by (simp add: ledgerInv_def)
    show ?thesis
      unfolding Paste step.simps
      by (rule ledgerInv_append [OF inv, where st = Upscaling and rnd = rnd
            and fs = "pastedImagesFrom now 0 its"])
         (use d Paste Some in \<open>simp_all add: handlePaste_managedImages
            handlePaste_created handlePaste_revoked\<close>)
  qed
next
  case (RemoveImage i)
  then show ?thesis using inv by (simp add: ledgerInv_remove)
next
  case ClearImages
  then show ?thesis using inv by (simp add: ledgerInv_clear)
qed (use arc in simp_all)

lemma ledgerInv_run:
  "ledgerInv s \<Longrightarrow> list_all admitRemoveClear evs \<Longrightarrow> collisionFreeRun evs s \<Longrightarrow>
   ledgerInv (run evs s)"
  by (induction evs arbitrary: s) (simp_all add: ledgerInv_step)

lemma ledgerInv_live:
  assumes "ledgerInv s"
  shows "set (liveHandles s) = previewUrl ` set (managedImages s)"
    and "length (liveHandles s) = length (managedImages s)"
proof -
  have cover: "set (map previewUrl (managedImages s)) \<union> set (revoked s) = {..<created s}"
    and disj: "set (map previewUrl (managedImages s)) \<inter> set (revoked s) = {}"
    and durl: "distinct (map previewUrl (managedImages s))"
    using assms by (simp_all add: ledgerInv_def)
  show 1: "set (liveHandles s) = previewUrl ` set (managedImages s)"
    using cover disj by (auto simp: liveHandles_def)
  have "distinct (liveHandles s)" by (simp add: liveHandles_def)
  then have "length (liveHandles s) = card (set (liveHandles s))"
    by (simp add: distinct_card)
  also have "\<dots> = card (set (map previewUrl (managedImages s)))" using 1 by simp
  also have "\<dots> = length (map previewUrl (managedImages s))"
    using durl by (rule distinct_card)
  finally show "length (liveHandles s) = length (managedImages s)" by simp
qed

section \<open>The status of an item along a sequence of events\<close>

lemma find_status_map_other:
  assumes "\<And>img. img_id img \<noteq> e \<Longrightarrow> g img = img" "\<And>img. img_id (g img) = img_id img" "i \<noteq> e"
  shows "find (\<lambda>img. img_id img = i) (map g imgs) = find (\<lambda>img. img_id img = i) imgs"
  using assms by (induction imgs) auto

lemma find_filter_other:
  "i \<noteq> j \<Longrightarrow> find (\<lambda>img. img_id img = i) (filter (\<lambda>img. img_id img \<noteq> j) imgs)
     = find (\<lambda>img. img_id img = i) imgs"
  by (induction imgs) auto

lemma find_filter_same:
  "find (\<lambda>img. img_id img = i) (filter (\<lambda>img. img_id img \<noteq> i) imgs) = None"
  by (induction imgs) auto

lemma find_append_first: "find P xs = Some x \<Longrightarrow> find P (xs @ ys) = Some x"
  by (induction xs) (auto split: if_splits)

lemma find_append_second: "find P xs = None \<Longrightarrow> find P (xs @ ys) = find P ys"
  by (induction xs) (auto split: if_splits)

lemma statusOf_append:
  "managedImages s' = managedImages s @ new \<Longrightarrow> statusOf i s = Some st \<Longrightarrow> statusOf i s' = Some st"
  by (auto simp: statusOf_def find_append_first)

lemma statusOf_inflight:
  assumes "lifecycleInv s" "statusOf i s = Some st" "i \<in> set (inflight s)"
  shows "st = Upscaling"
proof -
  from assms(2) obtain img where f: "find (\<lambda>img. img_id img = i) (managedImages s) = Some img"
    and st: "status img = st"
    by (auto simp: statusOf_def)
  from f have "img \<in> set (managedImages s)" "img_id img = i"
    by (auto simp: find_Some_iff)
  with assms(1,3) have "status img = Upscaling"
    by (auto simp: lifecycleInv_def list_all_iff)
  with st show ?thesis by simp
qed

lemma statusOf_upscaleThen_other:
  "i \<noteq> e \<Longrightarrow> statusOf i (upscaleThen e f s) = statusOf i s"
  unfolding statusOf_def upscaleThen_def Let_def
  by (simp add: find_status_map_other [where e = e])

lemma statusOf_upscaleCatch_other:
  "i \<noteq> e \<Longrightarrow> statusOf i (upscaleCatch e s) = statusOf i s"
  unfolding statusOf_def upscaleCatch_def
  by (simp add: find_status_map_other [where e = e])

lemma statusOf_remove:
  "statusOf i (handleRemoveImage j s) = (if i = j then None else statusOf i s)"
  by (simp add: statusOf_def handleRemoveImage_def Let_def find_filter_other find_filter_same
      split: option.splits)

lemma terminal_step:
  assumes inv: "lifecycleInv s" and st: "statusOf i s = Some st" "st \<noteq> Upscaling"
    and alive: "statusOf i (step e s) \<noteq> None"
  shows "statusOf i (step e s) = Some st"
proof (cases e)
  case (FileChange files rnd)
  then show ?thesis using st(1)
    by (auto intro: statusOf_append simp: handleFileChange_managedImages)
next
  case (Paste items now rnd)
  then show ?thesis using st(1)
    by (auto intro: statusOf_append simp: handlePaste_managedImages)
next
  case (UpscaleResolved x f)
  show ?thesis
  proof (cases "x \<in> set (inflight s)")
    case True
    with statusOf_inflight [OF inv st(1)] st(2) have "i \<noteq> x" by auto
    then show ?thesis using UpscaleResolved True st(1)
      by (simp add: statusOf_upscaleThen_other) (simp add: statusOf_def)
  next
    case False
    then show ?thesis using UpscaleResolved st(1) by simp
  qed
next
  case (UpscaleRejected x)
  show ?thesis
  proof (cases "x \<in> set (inflight s)")
    case True
    with statusOf_inflight [OF inv st(1)] st(2) have "i \<noteq> x" by auto
    then show ?thesis using UpscaleRejected True st(1)
      by (simp add: statusOf_upscaleCatch_other) (simp add: statusOf_def)
  next
    case False
    then show ?thesis using UpscaleRejected st(1) by simp
  qed
next
  case (RemoveImage j)
  then show ?thesis using st(1) alive by (simp add: statusOf_remove split: if_splits)
next
  case ClearImages
  then show ?thesis using alive by (simp add: statusOf_def handleClearImages_def)
next
  case ClickGeneratePdf
  then show ?thesis using st(1)
    by (simp add: statusOf_def clickGeneratePdf_def handleGeneratePdf_def Let_def)
next
  case (PdfSettled r)
  then show ?thesis using st(1)
    by (simp add: statusOf_def generatePdfSettled_def split: option.splits)
qed

lemma lifecycleInv_initial: "lifecycleInv initialApp"
  by (simp add: lifecycleInv_def initialApp_def initialManagedImages_def)

lemma pending_settle:
  assumes inv: "lifecycleInv s" and x: "x \<in> set (inflight s)"
    and m: "managedImages s' = map g (managedImages s)"
    and g: "\<And>img. img_id (g img) = img_id img" "\<And>img. img_id img \<noteq> x \<Longrightarrow> g img = img"
    and f: "inflight s' = remove1 x (inflight s)"
  shows "lifecycleInv s'"
proof -
  have d: "distinct (inflight s)" using inv by (simp add: lifecycleInv_def)
  have ids: "map img_id (managedImages s') = map img_id (managedImages s)"
    by (simp add: m g(1) o_def)
  have s': "set (inflight s') = set (inflight s) - {x}"
    using d by (simp add: f)
  have "status (g img) = Upscaling"
    if "img \<in> set (managedImages s)" "img_id (g img) \<in> set (inflight s')" for img
  proof -
    from that(2) have "img_id img \<noteq> x" "img_id img \<in> set (inflight s)"
      by (simp_all add: s' g(1))
    then show ?thesis using that(1) inv g(2) by (auto simp: lifecycleInv_def list_all_iff)
  qed
  moreover have "distinct (map img_id (managedImages s'))"
    using inv unfolding ids by (simp add: lifecycleInv_def)
  moreover have "distinct (inflight s')" using d by (simp add: f)
  ultimately show ?thesis
    unfolding lifecycleInv_def by (simp add: m list_all_iff)
qed

lemma lifecycleInv_step:
  assumes inv: "lifecycleInv s" and cf: "collisionFree e s" and sf: "staleFree e s"
  shows "lifecycleInv (step e s)"
proof -
  have dids: "distinct (map img_id (managedImages (step e s)))"
    using distinct_ids_step [OF _ cf] inv by (simp add: lifecycleInv_def)
  show ?thesis
  proof (cases e)
    case (FileChange files rnd)
    show ?thesis
    proof (cases files)
      case None
      then show ?thesis using inv FileChange by (simp add: lifecycleInv_def handleFileChange_def)
    next
      case (Some fs)
      let ?new = "newEntriesFrom Ready rnd 0 (created s) (filter (\<lambda>f. isImageType (type f)) fs)"
      have "img_id img \<notin> set (inflight s)" if "img \<in> set ?new" for img
        using sf that FileChange Some by (auto simp: staleFree_def list_all_iff)
      then show ?thesis
        using inv dids FileChange Some
        by (auto simp: lifecycleInv_def handleFileChange_managedImages handleFileChange_inflight
            list_all_iff)
    qed
  next
    case (Paste items now rnd)
    show ?thesis
    proof (cases items)
      case None
      then show ?thesis using inv Paste by (simp add: handlePaste_def)
    next
      case (Some its)
      let ?new = "newEntriesFrom Upscaling rnd 0 (created s) (pastedImagesFrom now 0 its)"
      have n: "newIds e s = map img_id ?new" using Paste Some by simp
      have 1: "distinct (inflight s @ map img_id ?new)"
        using inv cf sf unfolding n lifecycleInv_def collisionFree_def staleFree_def
        by (auto simp: list_all_iff)
      have 2: "status img = Upscaling" if "img \<in> set ?new" for img
        using that by (rule newEntriesFrom_status)
      have 3: "img_id img \<notin> set (map img_id ?new)" if "img \<in> set (managedImages s)" for img
        using collisionFree_old [OF cf that] unfolding n .
      have 4: "status img = Upscaling"
        if "img \<in> set (managedImages s)" "img_id img \<in> set (inflight s)" for img
        using inv that by (auto simp: lifecycleInv_def list_all_iff)
      show ?thesis
        unfolding lifecycleInv_def
        using dids 1 2 3 4 Paste Some
        by (auto simp: handlePaste_managedImages handlePaste_inflight list_all_iff)
    qed
  next
    case (UpscaleResolved x f)
    show ?thesis
    proof (cases "x \<in> set (inflight s)")
      case True
      show ?thesis
        unfolding UpscaleResolved step.simps if_P [OF True]
        by (rule pending_settle [OF inv True, where g = "\<lambda>img. if img_id img = x
              then img\<lparr>file := f, previewUrl := created s, status := Ready\<rparr> else img"])
           (simp_all add: upscaleThen_def Let_def)
    next
      case False
      then show ?thesis using inv UpscaleResolved by simp
    qed
  next
    case (UpscaleRejected x)
    show ?thesis
    proof (cases "x \<in> set (inflight s)")
      case True
      show ?thesis
        unfolding UpscaleRejected step.simps if_P [OF True]
        by (rule pending_settle [OF inv True, where g = "\<lambda>img. if img_id img = x
              then img\<lparr>status := Error, errorMessage := Some ''Upscaling failed.''\<rparr> else img"])
           (simp_all add: upscaleCatch_def)
    next
      case False
      then show ?thesis using inv UpscaleRejected by simp
    qed
  next
    case (RemoveImage j)
    have "managedImages (step e s) = filter (\<lambda>img. img_id img \<noteq> j) (managedImages s)"
      using RemoveImage by (simp add: handleRemoveImage_def Let_def)
    then show ?thesis
      using inv dids RemoveImage
      by (auto simp: lifecycleInv_def inflight_unchanged list_all_iff)
  next
    case ClearImages
    then show ?thesis using inv
      by (simp add: lifecycleInv_def handleClearImages_def)
  next
    case ClickGeneratePdf
    then show ?thesis using inv
      by (simp add: lifecycleInv_def clickGeneratePdf_def handleGeneratePdf_def Let_def)
  next
    case (PdfSettled r)
    then show ?thesis using inv
      by (simp add: lifecycleInv_def generatePdfSettled_def split: option.splits)
  qed
qed

lemma lifecycleInv_run:
  "lifecycleInv s \<Longrightarrow> collisionFreeRun evs s \<Longrightarrow> staleFreeRun evs s \<Longrightarrow> lifecycleInv (run evs s)"
  by (induction evs arbitrary: s) (simp_all add: lifecycleInv_step)

lemma terminal_run:
  "lifecycleInv s \<Longrightarrow> collisionFreeRun evs s \<Longrightarrow> staleFreeRun evs s \<Longrightarrow>
   aliveDuring i evs s \<Longrightarrow> statusOf i s = Some st \<Longrightarrow> st \<noteq> Upscaling \<Longrightarrow>
   statusOf i (run evs s) = Some st"
proof (induction evs arbitrary: s)
  case Nil
  then show ?case by simp
next
  case (Cons e evs)
  have "statusOf i (step e s) = Some st"
    using Cons.prems by (intro terminal_step) simp_all
  moreover have "lifecycleInv (step e s)"
    using Cons.prems by (intro lifecycleInv_step) simp_all
  ultimately show ?case using Cons.prems Cons.IH [of "step e s"] by simp
qed

lemma find_new_entry:
  "i \<in> img_id ` set (newEntriesFrom st rnd k c fs) \<Longrightarrow>
   map_option status (find (\<lambda>img. img_id img = i) (newEntriesFrom st rnd k c fs)) = Some st"
  by (induction fs arbitrary: k c) auto

lemma admitted_status:
  assumes m: "managedImages s' = managedImages s @ newEntriesFrom st rnd 0 c fs"
    and i: "i \<in> img_id ` set (newEntriesFrom st rnd 0 c fs)"
    and fresh: "i \<notin> img_id ` set (managedImages s)"
  shows "statusOf i s' = Some st"
proof -
  have "find (\<lambda>img. img_id img = i) (managedImages s) = None"
    using fresh by (auto simp: find_None_iff)
  then show ?thesis
    unfolding statusOf_def m by (simp add: find_append_second find_new_entry [OF i])
qed

lemma admission_status:
  assumes cf: "collisionFree e s" and new: "i \<in> set (newIds e s)"
  shows "(fileSourced e \<longrightarrow> statusOf i (step e s) = Some Ready) \<and>
         (pasteSourced e \<longrightarrow> statusOf i (step e s) = Some Upscaling)"
proof -
  have fresh: "i \<notin> img_id ` set (managedImages s)"
    using cf new by (simp add: collisionFree_def list_all_iff)
  show ?thesis
  proof (cases e)
    case (FileChange files rnd)
    then obtain fs where fs: "files = Some fs" using new by (cases files) simp_all
    have "statusOf i (handleFileChange (Some fs) rnd s) = Some Ready"
      by (rule admitted_status [where s = s and rnd = rnd and c = "created s"
            and fs = "filter (\<lambda>f. isImageType (type f)) fs"])
         (use new fresh FileChange fs in \<open>simp_all add: handleFileChange_managedImages\<close>)
    then show ?thesis using FileChange fs by simp
  next
    case (Paste items now rnd)
    then obtain its where its: "items = Some its" using new by (cases items) simp_all
    have "statusOf i (handlePaste (Some its) now rnd s) = Some Upscaling"
      by (rule admitted_status [where s = s and rnd = rnd and c = "created s"
            and fs = "pastedImagesFrom now 0 its"])
         (use new fresh Paste its in \<open>simp_all add: handlePaste_managedImages\<close>)
    then show ?thesis using Paste its by simp
  qed simp_all
qed

section \<open>Uniqueness of ids\<close>

text \<open>
  C9, as the code has it. An id is the file's name followed by the draw of
  \<open>Math.random()\<close>, and the code compares it with nothing. From the initial state, along
  every sequence of events in which the ids of each ingest differ from each other and
  from the ids then in the collection, the ids of the collection are pairwise distinct.
\<close>

theorem ids_unique_when_draws_differ:
  "collisionFreeRun evs initialApp \<Longrightarrow> distinct (map img_id (managedImages (run evs initialApp)))"
  by (rule distinct_ids_run) (simp_all add: initialApp_def initialManagedImages_def)

text \<open>The same file selected twice, with two different draws.\<close>

theorem ids_unique_when_draws_differ_witness:
  "collisionFreeRun [FileChange (Some [aPng]) halfDraw, FileChange (Some [aPng]) quarterDraw] initialApp \<and>
   distinct (map img_id (managedImages
     (run [FileChange (Some [aPng]) halfDraw, FileChange (Some [aPng]) quarterDraw] initialApp)))"
proof -
  have h: "collisionFreeRun [FileChange (Some [aPng]) halfDraw, FileChange (Some [aPng]) quarterDraw] initialApp"
    by code_simp
  show ?thesis using h ids_unique_when_draws_differ [OF h] by simp
qed

text \<open>
  C9 as stated fails when a draw repeats: the same file selected twice, with the same
  draw, gives two items with one id.
\<close>

theorem repeated_draw_counterexample:
  "map img_id (managedImages
     (run [FileChange (Some [aPng]) halfDraw, FileChange (Some [aPng]) halfDraw] initialApp))
   = [''a.png-0.5'', ''a.png-0.5''] \<and>
   \<not> distinct (map img_id (managedImages
     (run [FileChange (Some [aPng]) halfDraw, FileChange (Some [aPng]) halfDraw] initialApp)))"
  by code_simp

section \<open>Live handles and items\<close>

text \<open>
  C6, as the code has it. From the initial state, along every sequence of file
  selections, pastes, removals and clearings in which the ids of each ingest differ from
  each other and from the ids then in the collection, the live preview handles are
  exactly the handles of the items, as many as there are items, and no handle has been
  revoked twice.
\<close>

theorem live_handles_match_items:
  assumes "list_all admitRemoveClear evs" "collisionFreeRun evs initialApp"
  shows "length (liveHandles (run evs initialApp)) = length (managedImages (run evs initialApp)) \<and>
         set (liveHandles (run evs initialApp)) = previewUrl ` set (managedImages (run evs initialApp)) \<and>
         distinct (revoked (run evs initialApp))"
proof -
  have inv: "ledgerInv (run evs initialApp)"
    using ledgerInv_initial assms by (rule ledgerInv_run)
  then show ?thesis
    using ledgerInv_live [OF inv] by (simp add: ledgerInv_def)
qed

text \<open>A selection with a rejected file, a paste with a rejected item, and a removal.\<close>

theorem live_handles_match_items_witness:
  "list_all admitRemoveClear [FileChange (Some [aPng, notesTxt]) halfDraw,
      Paste (Some [textItem, pngItem]) clockAt5 halfDraw, RemoveImage ''a.png-0.5''] \<and>
   collisionFreeRun [FileChange (Some [aPng, notesTxt]) halfDraw,
      Paste (Some [textItem, pngItem]) clockAt5 halfDraw, RemoveImage ''a.png-0.5''] initialApp \<and>
   length (liveHandles (run [FileChange (Some [aPng, notesTxt]) halfDraw,
      Paste (Some [textItem, pngItem]) clockAt5 halfDraw, RemoveImage ''a.png-0.5''] initialApp)) = 1 \<and>
   length (managedImages (run [FileChange (Some [aPng, notesTxt]) halfDraw,
      Paste (Some [textItem, pngItem]) clockAt5 halfDraw, RemoveImage ''a.png-0.5''] initialApp)) = 1"
proof -
  let ?evs = "[FileChange (Some [aPng, notesTxt]) halfDraw,
      Paste (Some [textItem, pngItem]) clockAt5 halfDraw, RemoveImage ''a.png-0.5'']"
  have a: "list_all admitRemoveClear ?evs" by code_simp
  have b: "collisionFreeRun ?evs initialApp" by code_simp
  have c: "length (managedImages (run ?evs initialApp)) = 1" by code_simp
  show ?thesis using a b c live_handles_match_items [OF a b] by simp
qed

text \<open>
  C6 as stated fails when two items share an id: the same file selected twice with the
  same draw, then removed by that id. \<open>find\<close> revokes the handle of the first item,
  \<open>filter\<close> drops both: the collection is empty and the handle 1 is still live.
\<close>

theorem remove_colliding_id_leaks_counterexample:
  "list_all admitRemoveClear [FileChange (Some [aPng]) halfDraw, FileChange (Some [aPng]) halfDraw,
      RemoveImage ''a.png-0.5''] \<and>
   managedImages (run [FileChange (Some [aPng]) halfDraw, FileChange (Some [aPng]) halfDraw,
      RemoveImage ''a.png-0.5''] initialApp) = [] \<and>
   liveHandles (run [FileChange (Some [aPng]) halfDraw, FileChange (Some [aPng]) halfDraw,
      RemoveImage ''a.png-0.5''] initialApp) = [1]"
  by code_simp

section \<open>The life cycle of the status\<close>

text \<open>
  C4, as the code has it. Take a run from the initial state in which ids never collide:
  the ids of each ingest differ from each other, from the ids then in the collection and
  from the ids of the transforms then in flight. Let \<open>e\<close> be an ingest event of the run,
  \<open>i\<close> one of the ids it generates, and let the item stay in the collection during the
  events \<open>evs\<close> that follow. If \<open>e\<close> is a file selection, the status of the item is
  \<open>Ready\<close> after \<open>evs\<close>, whatever \<open>evs\<close> is. If \<open>e\<close> is a paste, the status is
  \<open>Upscaling\<close> right after \<open>e\<close>, and once it is \<open>Ready\<close> or \<open>Error\<close>, after any number
  \<open>k\<close> of the events, it is the same at the end: the status changes at most once, to
  one of the two.
\<close>

theorem status_lifecycle:
  assumes cf: "collisionFreeRun (pre @ e # evs) initialApp"
    and sf: "staleFreeRun (pre @ e # evs) initialApp"
    and new: "i \<in> set (newIds e (run pre initialApp))"
    and alive: "aliveDuring i evs (run (pre @ [e]) initialApp)"
  shows "(fileSourced e \<longrightarrow> statusOf i (run (pre @ e # evs) initialApp) = Some Ready) \<and>
         (pasteSourced e \<longrightarrow>
            statusOf i (run (pre @ [e]) initialApp) = Some Upscaling \<and>
            (\<forall>k st. statusOf i (run (pre @ e # take k evs) initialApp) = Some st \<and> st \<noteq> Upscaling
               \<longrightarrow> statusOf i (run (pre @ e # evs) initialApp) = Some st))"
proof -
  define s0 where "s0 = run pre initialApp"
  define s1 where "s1 = step e s0"
  have r1: "run (pre @ [e]) initialApp = s1"
    and r: "run (pre @ e # xs) initialApp = run xs s1" for xs
    by (simp_all add: run_append s0_def s1_def)
  have cf0: "collisionFreeRun pre initialApp" and cfe: "collisionFree e s0"
    and cf1: "collisionFreeRun evs s1"
    using cf by (simp_all add: collisionFreeRun_append s0_def s1_def)
  have sf0: "staleFreeRun pre initialApp" and sfe: "staleFree e s0"
    and sf1: "staleFreeRun evs s1"
    using sf by (simp_all add: staleFreeRun_append s0_def s1_def)
  have inv0: "lifecycleInv s0"
    unfolding s0_def using lifecycleInv_initial cf0 sf0 by (rule lifecycleInv_run)
  have inv1: "lifecycleInv s1"
    unfolding s1_def using inv0 cfe sfe by (rule lifecycleInv_step)
  have alive1: "aliveDuring i evs s1" using alive by (simp add: r1)
  have adm: "(fileSourced e \<longrightarrow> statusOf i s1 = Some Ready) \<and>
             (pasteSourced e \<longrightarrow> statusOf i s1 = Some Upscaling)"
    unfolding s1_def using cfe new [folded s0_def] by (rule admission_status)
  have later: "statusOf i (run evs s1) = Some st"
    if "statusOf i (run (take k evs) s1) = Some st" "st \<noteq> Upscaling" for k st
  proof -
    let ?mid = "run (take k evs) s1"
    have split: "evs = take k evs @ drop k evs" by simp
    have cfa: "collisionFreeRun (take k evs) s1" and cfb: "collisionFreeRun (drop k evs) ?mid"
      using cf1 collisionFreeRun_append [of "take k evs" "drop k evs" s1] by simp_all
    have sfa: "staleFreeRun (take k evs) s1" and sfb: "staleFreeRun (drop k evs) ?mid"
      using sf1 staleFreeRun_append [of "take k evs" "drop k evs" s1] by simp_all
    have al: "aliveDuring i (drop k evs) ?mid"
      using alive1 aliveDuring_append [of i "take k evs" "drop k evs" s1] by simp
    have invm: "lifecycleInv ?mid" using inv1 cfa sfa by (rule lifecycleInv_run)
    have "statusOf i (run (drop k evs) ?mid) = Some st"
      using invm cfb sfb al that by (rule terminal_run)
    then show ?thesis using run_append [of "take k evs" "drop k evs" s1] by simp
  qed
  have fromFile: "statusOf i (run evs s1) = Some Ready" if "fileSourced e"
    using later [of 0 Ready] adm that by simp
  have all_later: "\<forall>k st. statusOf i (run (take k evs) s1) = Some st \<and> st \<noteq> Upscaling
      \<longrightarrow> statusOf i (run evs s1) = Some st"
    using later by blast
  show ?thesis unfolding r run.simps(1) using adm fromFile all_later by blast
qed

text \<open>
  A pasted image whose transform resolves, followed by a file selection and an assembly:
  \<open>Upscaling\<close> after the paste, \<open>Ready\<close> after the first event and at the end.
\<close>

theorem status_lifecycle_witness:
  "collisionFreeRun ([] @ Paste (Some [pngItem]) clockAt5 halfDraw # lifecycleEvents) initialApp \<and>
   staleFreeRun ([] @ Paste (Some [pngItem]) clockAt5 halfDraw # lifecycleEvents) initialApp \<and>
   pastedId \<in> set (newIds (Paste (Some [pngItem]) clockAt5 halfDraw) (run [] initialApp)) \<and>
   aliveDuring pastedId lifecycleEvents (run ([] @ [Paste (Some [pngItem]) clockAt5 halfDraw]) initialApp) \<and>
   statusOf pastedId (run ([] @ [Paste (Some [pngItem]) clockAt5 halfDraw]) initialApp) = Some Upscaling \<and>
   statusOf pastedId (run ([] @ Paste (Some [pngItem]) clockAt5 halfDraw # take 1 lifecycleEvents) initialApp)
     = Some Ready \<and>
   statusOf pastedId (run ([] @ Paste (Some [pngItem]) clockAt5 halfDraw # lifecycleEvents) initialApp)
     = Some Ready"
proof -
  let ?e = "Paste (Some [pngItem]) clockAt5 halfDraw"
  have a: "collisionFreeRun ([] @ ?e # lifecycleEvents) initialApp" by code_simp
  have b: "staleFreeRun ([] @ ?e # lifecycleEvents) initialApp" by code_simp
  have c: "pastedId \<in> set (newIds ?e (run [] initialApp))" by code_simp
  have d: "aliveDuring pastedId lifecycleEvents (run ([] @ [?e]) initialApp)" by code_simp
  have p: "pasteSourced ?e" by simp
  have m: "statusOf pastedId (run ([] @ ?e # take 1 lifecycleEvents) initialApp) = Some Ready"
    by code_simp
  show ?thesis using a b c d m p status_lifecycle [OF a b c d] by blast
qed

text \<open>
  C4 as stated fails when two items share an id. First, a file named as \<open>handlePaste\<close>
  names its pastes is selected and is \<open>Ready\<close>; an image pasted at that time with the
  same draw gets the same id; when its transform fails, the update by id turns the
  selected file's item to \<open>Error\<close> as well. Second, the same image is pasted twice with
  one clock value and one draw: when the first transform resolves both items become
  \<open>Ready\<close>, and when the second fails both go on to \<open>Error\<close>.
\<close>

theorem status_changed_by_collision_counterexample:
  "map (\<lambda>img. (previewUrl img, status img)) (managedImages (run (take 1 collidingEvents) initialApp))
     = [(0, Ready)] \<and>
   map (\<lambda>img. (previewUrl img, status img)) (managedImages (run collidingEvents initialApp))
     = [(0, Error), (1, Error)] \<and>
   map status (managedImages (run (take 2 collidingPastes) initialApp)) = [Upscaling, Upscaling] \<and>
   map status (managedImages (run (take 3 collidingPastes) initialApp)) = [Ready, Ready] \<and>
   map status (managedImages (run collidingPastes initialApp)) = [Error, Error]"
  by code_simp

end
